theory Spec2Isabelle
  imports Complex_Main "HOL-Library.Word" "HOL-Library.Signed_Division"
begin

unbundle bit_operations_syntax

section \<open>Frame buffers and request mappings\<close>

text \<open>
  A raw frame (\<^verbatim>\<open>const void * frame\<close>) is the list of bytes that the pointer
  addresses.  Reading past the end of that list is an out-of-bounds read in the
  C++; the model returns \<open>None\<close> there.

  \<^verbatim>\<open>request_mapping\<close>, \<^verbatim>\<open>uvc::stream_profile\<close> and
  \<^verbatim>\<open>native_pixel_format\<close> are declared in headers that are not part of
  \<^verbatim>\<open>subdevice.h\<close>; only the members that \<^verbatim>\<open>subdevice.h\<close> touches
  are kept, and \<^verbatim>\<open>get_image_size\<close> is a parameter of the pixel format.
\<close>

type_synonym u8 = "8 word"

record uvc_stream_profile =
  width :: nat
  height :: nat

record native_pixel_format =
  get_image_size :: "nat \<Rightarrow> nat \<Rightarrow> nat"

record request_mapping =
  profile :: uvc_stream_profile
  pf :: native_pixel_format

section \<open>The rolling timestamp reader\<close>

text \<open>
  \<^verbatim>\<open>bool started; int64_t total; int last_timestamp; mutable int64_t counter = 0;\<close>
  The field \<^verbatim>\<open>total\<close> is called \<open>total_acc\<close> here.
\<close>

record rolling_timestamp_reader =
  started :: bool
  total_acc :: "64 word"
  last_timestamp :: "32 word"
  counter :: "64 word"

text \<open>
  \<^verbatim>\<open>rolling_timestamp_reader() : started(), total() {}\<close> value-initialises
  \<^verbatim>\<open>started\<close> and \<^verbatim>\<open>total\<close>, \<^verbatim>\<open>counter\<close> has the default member
  initialiser 0, and \<^verbatim>\<open>last_timestamp\<close> is left uninitialised: its
  indeterminate value is the argument \<open>lt\<close>.
\<close>

definition rolling_timestamp_reader_init :: "32 word \<Rightarrow> rolling_timestamp_reader" where
  "rolling_timestamp_reader_init lt =
     \<lparr>started = False, total_acc = 0, last_timestamp = lt, counter = 0\<rparr>"

text \<open>
  The loop of \<^verbatim>\<open>validate_frame\<close>:
  \<^verbatim>\<open>for (it = frame, end = it + size; it != end; ++it) if (*it) return true;\<close>
  followed by \<^verbatim>\<open>return false\<close>.  The first argument is the number of bytes
  still to visit, the second the bytes from \<^verbatim>\<open>it\<close> on.
\<close>

fun scan_nonzero :: "nat \<Rightarrow> u8 list \<Rightarrow> bool option" where
  "scan_nonzero 0 bytes = Some False"
| "scan_nonzero (Suc n) [] = None"
| "scan_nonzero (Suc n) (b # bytes) = (if b \<noteq> 0 then Some True else scan_nonzero n bytes)"

definition validate_frame :: "request_mapping \<Rightarrow> u8 list \<Rightarrow> bool option" where
  "validate_frame mode frame =
     scan_nonzero (get_image_size (pf mode) (width (profile mode)) (height (profile mode))) frame"

text \<open>
  \<^verbatim>\<open>*reinterpret_cast<const int32_t *>(frame)\<close>: the first four bytes of the
  frame in the byte order of the host, taken to be little-endian.
\<close>

fun read_int32 :: "u8 list \<Rightarrow> 32 word option" where
  "read_int32 (b0 # b1 # b2 # b3 # rest) =
     Some (ucast b0 OR push_bit 8 (ucast b1) OR push_bit 16 (ucast b2) OR push_bit 24 (ucast b3))"
| "read_int32 bytes = None"

text \<open>
  \<^verbatim>\<open>get_frame_timestamp\<close>.  The subtraction on \<^verbatim>\<open>int\<close> wraps around
  (the source says so in its comment), \<^verbatim>\<open>total += delta\<close> sign-extends the
  delta to 64 bits, \<^verbatim>\<open>total / 100000\<close> is C++ division (truncating, \<open>sdiv\<close>
  on the signed value), \<^verbatim>\<open>static_cast<int>\<close> keeps the low 32 bits, and the
  \<^verbatim>\<open>int\<close> is returned as a \<^verbatim>\<open>double\<close>, which represents every 32-bit
  integer exactly: the returned value is the real number of that integer.
\<close>

definition get_frame_timestamp ::
  "rolling_timestamp_reader \<Rightarrow> u8 list \<Rightarrow> (real \<times> rolling_timestamp_reader) option" where
  "get_frame_timestamp r frame =
     (case read_int32 frame of
        None \<Rightarrow> None
      | Some rolling_timestamp \<Rightarrow>
          let r1 = (if \<not> started r
                    then r\<lparr>last_timestamp := rolling_timestamp, started := True\<rparr>
                    else r);
              delta = rolling_timestamp - last_timestamp r1;
              r2 = r1\<lparr>last_timestamp := rolling_timestamp\<rparr>;
              r3 = r2\<lparr>total_acc := total_acc r2 + scast delta\<rparr>;
              timestamp = (word_of_int (sint (total_acc r3) sdiv 100000) :: 32 word)
          in Some (real_of_int (sint timestamp), r3))"

text \<open>
  \<^verbatim>\<open>get_frame_counter\<close>: \<^verbatim>\<open>return ++counter;\<close> with the result converted
  to \<^verbatim>\<open>unsigned long long\<close>; neither argument is read.
\<close>

definition get_frame_counter ::
  "rolling_timestamp_reader \<Rightarrow> request_mapping \<Rightarrow> u8 list \<Rightarrow> 64 word \<times> rolling_timestamp_reader" where
  "get_frame_counter r mode frame = (counter r + 1, r\<lparr>counter := counter r + 1\<rparr>)"

subsection \<open>Sequences of calls on one reader\<close>

text \<open>Feeding the frames of a stream, one after the other, to \<open>get_frame_timestamp\<close>.\<close>

fun get_frame_timestamps ::
  "rolling_timestamp_reader \<Rightarrow> u8 list list \<Rightarrow> (real list \<times> rolling_timestamp_reader) option" where
  "get_frame_timestamps r [] = Some ([], r)"
| "get_frame_timestamps r (frame # frames) =
     (case get_frame_timestamp r frame of
        None \<Rightarrow> None
      | Some (t, r') \<Rightarrow>
          (case get_frame_timestamps r' frames of
             None \<Rightarrow> None
           | Some (ts, r'') \<Rightarrow> Some (t # ts, r'')))"

text \<open>The little-endian frame of four bytes that carries the counter value \<open>c\<close>.\<close>

definition frame_of_counter :: "32 word \<Rightarrow> u8 list" where
  "frame_of_counter c =
     [ucast c, ucast (drop_bit 8 c), ucast (drop_bit 16 c), ucast (drop_bit 24 c)]"

text \<open>
  A stream whose hardware counter advances by \<open>2^31 - 1\<close> ticks from each frame to
  the next: frames \<open>0, \<dots>, n\<close>.
\<close>

definition fast_counter_frames :: "nat \<Rightarrow> u8 list list" where
  "fast_counter_frames n = map (\<lambda>k. frame_of_counter (of_nat k * 0x7FFFFFFF)) [0..<Suc n]"

text \<open>Any interleaving of the three operations of the reader.\<close>

datatype reader_call =
    Call_validate_frame request_mapping "u8 list"
  | Call_get_frame_timestamp request_mapping "u8 list"
  | Call_get_frame_counter request_mapping "u8 list"

datatype reader_result =
    Result_valid bool
  | Result_timestamp real
  | Result_counter "64 word"

fun reader_call_step ::
  "rolling_timestamp_reader \<Rightarrow> reader_call \<Rightarrow> (reader_result \<times> rolling_timestamp_reader) option" where
  "reader_call_step r (Call_validate_frame mode frame) =
     (case validate_frame mode frame of
        None \<Rightarrow> None
      | Some ok \<Rightarrow> Some (Result_valid ok, r))"
| "reader_call_step r (Call_get_frame_timestamp mode frame) =
     (case get_frame_timestamp r frame of
        None \<Rightarrow> None
      | Some (t, r') \<Rightarrow> Some (Result_timestamp t, r'))"
| "reader_call_step r (Call_get_frame_counter mode frame) =
     (case get_frame_counter r mode frame of (c, r') \<Rightarrow> Some (Result_counter c, r'))"

fun reader_calls ::
  "rolling_timestamp_reader \<Rightarrow> reader_call list \<Rightarrow> (reader_result list \<times> rolling_timestamp_reader) option" where
  "reader_calls r [] = Some ([], r)"
| "reader_calls r (c # cs) =
     (case reader_call_step r c of
        None \<Rightarrow> None
      | Some (x, r') \<Rightarrow>
          (case reader_calls r' cs of
             None \<Rightarrow> None
           | Some (xs, r'') \<Rightarrow> Some (x # xs, r'')))"

fun counter_results :: "reader_result list \<Rightarrow> 64 word list" where
  "counter_results [] = []"
| "counter_results (Result_counter c # xs) = c # counter_results xs"
| "counter_results (x # xs) = counter_results xs"

fun is_counter_call :: "reader_call \<Rightarrow> bool" where
  "is_counter_call (Call_get_frame_counter mode frame) = True"
| "is_counter_call c = False"

section \<open>Errors\<close>

text \<open>
  The failures that the operations below can raise.  An exception of the C++ is the
  \<open>Inl\<close> branch of the result.
\<close>

datatype endpoint_error = Power_acquisition_failure

section \<open>The endpoint base class\<close>

text \<open>
  The members that the constructor \<^verbatim>\<open>endpoint()\<close> initialises:
  \<^verbatim>\<open>_is_streaming(false), _is_opened(false), _callback(nullptr, ...),
  _max_publish_list_size(16), _stream_profiles([this]() { return this->init_stream_profiles(); })\<close>.
  \<open>stream_profiles\<close> is the cache of the \<^verbatim>\<open>lazy<>\<close> member: \<open>None\<close> until
  the initialiser has run.  The types of a native stream profile and of a callback
  are parameters.
\<close>

record ('p, 'cb) endpoint =
  is_streaming :: bool
  is_opened :: bool
  callback :: "'cb option"
  max_publish_list_size :: "32 word"
  stream_profiles :: "'p list option"

definition endpoint_init :: "('p, 'cb) endpoint" where
  "endpoint_init =
     \<lparr>is_streaming = False, is_opened = False, callback = None,
      max_publish_list_size = 16, stream_profiles = None\<rparr>"

text \<open>
  Modelled from the spec: the class template \<^verbatim>\<open>lazy<T>\<close> and its
  \<^verbatim>\<open>operator*\<close> are declared outside \<^verbatim>\<open>subdevice.h\<close>.  The spec calls it
  an explicit compute-or-return-cached primitive: the value is computed once on first
  access and cached from then on.  The initialiser runs on a state \<open>d\<close> (the device that
  the enumeration queries) and may change it.
\<close>

definition lazy_deref :: "('d \<Rightarrow> 'a \<times> 'd) \<Rightarrow> 'a option \<Rightarrow> 'd \<Rightarrow> 'a \<times> 'a option \<times> 'd" where
  "lazy_deref init cache d =
     (case cache of
        Some v \<Rightarrow> (v, cache, d)
      | None \<Rightarrow> (case init d of (v, d') \<Rightarrow> (v, Some v, d')))"

text \<open>
  \<^verbatim>\<open>get_stream_profiles() const { return *_stream_profiles; }\<close>, where the
  initialiser of \<^verbatim>\<open>_stream_profiles\<close> is the virtual
  \<^verbatim>\<open>init_stream_profiles\<close> of the subclass (the first argument).
\<close>

definition get_stream_profiles ::
  "('d \<Rightarrow> 'p list \<times> 'd) \<Rightarrow> ('p, 'cb) endpoint \<Rightarrow> 'd \<Rightarrow> 'p list \<times> ('p, 'cb) endpoint \<times> 'd" where
  "get_stream_profiles init_stream_profiles e d =
     (case lazy_deref init_stream_profiles (stream_profiles e) d of
        (v, cache, d') \<Rightarrow> (v, e\<lparr>stream_profiles := cache\<rparr>, d'))"

text \<open>
  A sequence of calls of \<open>get_stream_profiles\<close> on one endpoint.  Before each call
  the device may change (one function per call), so that an enumeration run at that
  moment would return something else.
\<close>

fun get_stream_profiles_calls ::
  "('d \<Rightarrow> 'p list \<times> 'd) \<Rightarrow> ('p, 'cb) endpoint \<Rightarrow> 'd \<Rightarrow> ('d \<Rightarrow> 'd) list
     \<Rightarrow> 'p list list \<times> ('p, 'cb) endpoint \<times> 'd" where
  "get_stream_profiles_calls init e d [] = ([], e, d)"
| "get_stream_profiles_calls init e d (change # changes) =
     (case get_stream_profiles init e (change d) of
        (v, e', d') \<Rightarrow>
          (case get_stream_profiles_calls init e' d' changes of
             (vs, e'', d'') \<Rightarrow> (v # vs, e'', d'')))"

text \<open>An initialiser that counts its invocations in a second component of the state.\<close>

definition counting :: "('d \<Rightarrow> 'a \<times> 'd) \<Rightarrow> 'd \<times> nat \<Rightarrow> 'a \<times> ('d \<times> nat)" where
  "counting init = (\<lambda>(d, n). case init d of (v, d') \<Rightarrow> (v, (d', Suc n)))"

subsection \<open>Frame allocation\<close>

text \<open>
  Modelled from the spec: \<^verbatim>\<open>alloc_frame\<close> is only declared in
  \<^verbatim>\<open>subdevice.h\<close>, and the frame archive behind it is an external collaborator.
  The spec: it acquires a frame buffer of the given size from the shared pool, tags it
  with the metadata, and returns a null/empty result (not an error) when the pool is
  exhausted or the maximum number of simultaneously published, unreleased frames
  (\<^verbatim>\<open>max_publish_list_size\<close>) would be exceeded.
\<close>

record frame_archive =
  pool_free :: nat
  published :: nat

record 'm rs_frame =
  frame_size :: nat
  additional_data :: 'm

definition alloc_frame ::
  "('p, 'cb) endpoint \<Rightarrow> frame_archive \<Rightarrow> nat \<Rightarrow> 'm
     \<Rightarrow> endpoint_error + ('m rs_frame option \<times> frame_archive)" where
  "alloc_frame e archive sz data =
     (if pool_free archive = 0 \<or> unat (max_publish_list_size e) < Suc (published archive)
      then Inr (None, archive)
      else Inr (Some \<lparr>frame_size = sz, additional_data = data\<rparr>,
                archive\<lparr>pool_free := pool_free archive - 1,
                        published := Suc (published archive)\<rparr>))"

text \<open>Allocating \<open>n\<close> frames in a row, none of them released in between.\<close>

fun alloc_frames ::
  "('p, 'cb) endpoint \<Rightarrow> frame_archive \<Rightarrow> nat \<Rightarrow> nat \<Rightarrow> 'm
     \<Rightarrow> endpoint_error + ('m rs_frame option list \<times> frame_archive)" where
  "alloc_frames e archive sz 0 data = Inr ([], archive)"
| "alloc_frames e archive sz (Suc n) data =
     (case alloc_frame e archive sz data of
        Inl err \<Rightarrow> Inl err
      | Inr (f, archive') \<Rightarrow>
          (case alloc_frames e archive' sz n data of
             Inl err \<Rightarrow> Inl err
           | Inr (fs, archive'') \<Rightarrow> Inr (f # fs, archive'')))"

subsection \<open>Frame delivery\<close>

text \<open>
  Modelled from the spec: \<^verbatim>\<open>invoke_callback\<close> is only declared in
  \<^verbatim>\<open>subdevice.h\<close>.  The spec: it delivers a frame to the currently registered
  callback, if any.  The frames handed to the callback so far are kept in a list.
\<close>

definition invoke_callback ::
  "('p, 'cb) endpoint \<Rightarrow> 'm rs_frame \<Rightarrow> 'm rs_frame list \<Rightarrow> 'm rs_frame list" where
  "invoke_callback e frame_ref delivered =
     (case callback e of
        None \<Rightarrow> delivered
      | Some cb \<Rightarrow> delivered @ [frame_ref])"

text \<open>The metadata a delivered frame is tagged with: its timestamp and its counter.\<close>

record frame_additional_data =
  frame_timestamp :: real
  frame_number :: "64 word"

text \<open>
  Modelled from the spec: the handling of one incoming raw buffer while streaming is
  code of \<^verbatim>\<open>start_streaming\<close>, which \<^verbatim>\<open>subdevice.h\<close> only declares.  The
  spec: each incoming raw buffer is validated, timestamped, wrapped via
  \<^verbatim>\<open>alloc_frame\<close> and dispatched via \<^verbatim>\<open>invoke_callback\<close>; a false result of
  \<^verbatim>\<open>validate_frame\<close> signals the caller to drop the frame without timestamping it;
  an empty result of \<^verbatim>\<open>alloc_frame\<close> means that this frame is dropped; failures on
  the delivery thread are handled locally and never interrupt the stream.  The state
  is the reader of the stream, the frame archive and the frames delivered so far;
  \<open>None\<close> stands for an out-of-bounds read of the buffer, as before.
\<close>

definition deliver_frame ::
  "('p, 'cb) endpoint \<Rightarrow> request_mapping \<Rightarrow> u8 list
     \<Rightarrow> rolling_timestamp_reader \<times> frame_archive \<times> frame_additional_data rs_frame list
     \<Rightarrow> (rolling_timestamp_reader \<times> frame_archive \<times> frame_additional_data rs_frame list) option"
  where
  "deliver_frame e mode frame = (\<lambda>(r, archive, delivered).
     case validate_frame mode frame of
       None \<Rightarrow> None
     | Some ok \<Rightarrow>
         if \<not> ok then Some (r, archive, delivered)
         else
           (case get_frame_timestamp r frame of
              None \<Rightarrow> None
            | Some (t, r1) \<Rightarrow>
                (case get_frame_counter r1 mode frame of
                   (c, r2) \<Rightarrow>
                     (case alloc_frame e archive
                             (get_image_size (pf mode) (width (profile mode)) (height (profile mode)))
                             \<lparr>frame_timestamp = t, frame_number = c\<rparr> of
                        Inl err \<Rightarrow> Some (r2, archive, delivered)
                      | Inr (None, archive') \<Rightarrow> Some (r2, archive', delivered)
                      | Inr (Some f, archive') \<Rightarrow>
                          Some (r2, archive', invoke_callback e f delivered)))))"

section \<open>The HID endpoint\<close>

text \<open>
  The HID transport device is an external collaborator.  Its state here is the sensor
  list it reports at the moment and the calls it has received, in order.
\<close>

datatype hid_call = Hid_open | Hid_get_sensors | Hid_close

record 's hid_device =
  device_sensors :: "'s list"
  hid_calls :: "hid_call list"

definition hid_device_open :: "'s hid_device \<Rightarrow> 's hid_device" where
  "hid_device_open d = d\<lparr>hid_calls := hid_calls d @ [Hid_open]\<rparr>"

definition hid_device_get_sensors :: "'s hid_device \<Rightarrow> 's list \<times> 's hid_device" where
  "hid_device_get_sensors d = (device_sensors d, d\<lparr>hid_calls := hid_calls d @ [Hid_get_sensors]\<rparr>)"

definition hid_device_close :: "'s hid_device \<Rightarrow> 's hid_device" where
  "hid_device_close d = d\<lparr>hid_calls := hid_calls d @ [Hid_close]\<rparr>"

text \<open>
  The members of \<^verbatim>\<open>hid_endpoint\<close> that hold data:
  \<^verbatim>\<open>_configured_sensor_iio\<close> and \<^verbatim>\<open>_hid_sensors\<close>, both empty vectors before
  the body of the constructor runs.
\<close>

record 's hid_endpoint =
  configured_sensor_iio :: "int list"
  hid_sensors :: "'s list"

text \<open>
  \<^verbatim>\<open>_hid_device->open(); for (auto& elem : _hid_device->get_sensors())
  _hid_sensors.push_back(elem); _hid_device->close();\<close>
\<close>

definition hid_endpoint_init :: "'s hid_device \<Rightarrow> 's hid_endpoint \<times> 's hid_device" where
  "hid_endpoint_init hid_device =
     (let d1 = hid_device_open hid_device;
          (elems, d2) = hid_device_get_sensors d1;
          ep = foldl (\<lambda>ep elem. ep\<lparr>hid_sensors := hid_sensors ep @ [elem]\<rparr>)
                 \<lparr>configured_sensor_iio = [], hid_sensors = []\<rparr> elems;
          d3 = hid_device_close d2
      in (ep, d3))"

section \<open>The video endpoint and its power gate\<close>

text \<open>
  Of \<^verbatim>\<open>uvc_endpoint\<close> the power gate touches \<^verbatim>\<open>std::atomic<int> _user_count\<close>
  and the device.  Of the device (an external collaborator) the model keeps the power
  commands it has carried out, in order, and whether a power-on request fails.
\<close>

datatype power_event = Power_on | Power_off

record uvc_endpoint =
  user_count :: "32 word"

record uvc_device =
  power_log :: "power_event list"
  power_on_fails :: bool

text \<open>
  \<open>owner\<close> is what \<^verbatim>\<open>_owner.lock()\<close> yields for the
  \<^verbatim>\<open>std::weak_ptr<uvc_endpoint>\<close> of a token: the endpoint while it is alive,
  \<open>None\<close> once it has been destroyed.  The device is held through a shared pointer
  and may outlive the endpoint.
\<close>

record uvc_world =
  owner :: "uvc_endpoint option"
  device :: uvc_device

text \<open>\<^verbatim>\<open>uvc_endpoint(uvc_device) : _device(std::move(uvc_device)), _user_count(0) {}\<close>\<close>

definition uvc_endpoint_init :: "uvc_device \<Rightarrow> uvc_world" where
  "uvc_endpoint_init uvc_device = \<lparr>owner = Some \<lparr>user_count = 0\<rparr>, device = uvc_device\<rparr>"

text \<open>
  Modelled from the spec: \<^verbatim>\<open>acquire_power\<close> and \<^verbatim>\<open>release_power\<close> are only
  declared in \<^verbatim>\<open>subdevice.h\<close>.  The spec: acquire increments the shared user count
  and, if the pre-increment value was 0, powers the device on; that call may fail, and
  the failure propagates to the acquirer without leaving the count incremented.
  Release decrements the count and, if the post-decrement value is 0, powers the
  device off.
\<close>

definition acquire_power ::
  "uvc_endpoint \<Rightarrow> uvc_device \<Rightarrow> endpoint_error + (uvc_endpoint \<times> uvc_device)" where
  "acquire_power e d =
     (if user_count e = 0
      then (if power_on_fails d
            then Inl Power_acquisition_failure
            else Inr (e\<lparr>user_count := user_count e + 1\<rparr>,
                      d\<lparr>power_log := power_log d @ [Power_on]\<rparr>))
      else Inr (e\<lparr>user_count := user_count e + 1\<rparr>, d))"

definition release_power :: "uvc_endpoint \<Rightarrow> uvc_device \<Rightarrow> uvc_endpoint \<times> uvc_device" where
  "release_power e d =
     (let e' = e\<lparr>user_count := user_count e - 1\<rparr>
      in (e', if user_count e' = 0 then d\<lparr>power_log := power_log d @ [Power_off]\<rparr> else d))"

text \<open>
  The constructor of the token,
  \<^verbatim>\<open>auto strong = _owner.lock(); if (strong) strong->acquire_power();\<close>
  and its destructor,
  \<^verbatim>\<open>auto strong = _owner.lock(); if (strong) strong->release_power();\<close>
\<close>

definition power_init :: "uvc_world \<Rightarrow> endpoint_error + uvc_world" where
  "power_init w =
     (case owner w of
        None \<Rightarrow> Inr w
      | Some strong \<Rightarrow>
          (case acquire_power strong (device w) of
             Inl err \<Rightarrow> Inl err
           | Inr (e', d') \<Rightarrow> Inr \<lparr>owner = Some e', device = d'\<rparr>))"

definition power_destroy :: "uvc_world \<Rightarrow> uvc_world" where
  "power_destroy w =
     (case owner w of
        None \<Rightarrow> w
      | Some strong \<Rightarrow>
          (case release_power strong (device w) of
             (e', d') \<Rightarrow> \<lparr>owner = Some e', device = d'\<rparr>))"

text \<open>A sequence of token constructions and destructions, one at a time.\<close>

datatype power_op = Construct_power | Destroy_power

fun power_ops :: "uvc_world \<Rightarrow> power_op list \<Rightarrow> endpoint_error + uvc_world" where
  "power_ops w [] = Inr w"
| "power_ops w (Construct_power # ops) =
     (case power_init w of
        Inl err \<Rightarrow> Inl err
      | Inr w' \<Rightarrow> power_ops w' ops)"
| "power_ops w (Destroy_power # ops) = power_ops (power_destroy w) ops"

text \<open>
  What the claim about the gate expects of such a sequence, read off the user count
  alone: a power-on for each construction that finds the count at 0, a power-off for
  each destruction that finds it at 1, and nothing else.
\<close>

fun power_transitions :: "32 word \<Rightarrow> power_op list \<Rightarrow> power_event list" where
  "power_transitions c [] = []"
| "power_transitions c (Construct_power # ops) =
     (if c = 0 then [Power_on] else []) @ power_transitions (c + 1) ops"
| "power_transitions c (Destroy_power # ops) =
     (if c = 1 then [Power_off] else []) @ power_transitions (c - 1) ops"

fun count_after :: "32 word \<Rightarrow> power_op list \<Rightarrow> 32 word" where
  "count_after c [] = c"
| "count_after c (Construct_power # ops) = count_after (c + 1) ops"
| "count_after c (Destroy_power # ops) = count_after (c - 1) ops"

section \<open>Properties of the rolling timestamp reader\<close>

subsection \<open>Reading the counter\<close>

lemma read_int32_frame_of_counter: "read_int32 (frame_of_counter c @ rest) = Some c"
proof -
  let ?w = "ucast (ucast c :: 8 word) OR push_bit 8 (ucast (ucast (drop_bit 8 c) :: 8 word))
            OR push_bit 16 (ucast (ucast (drop_bit 16 c) :: 8 word))
            OR push_bit 24 (ucast (ucast (drop_bit 24 c) :: 8 word)) :: 32 word"
  have "?w = c"
  proof (rule bit_word_eqI)
    fix n :: nat
    assume "n < LENGTH(32)"
    then consider "n < 8" | "8 \<le> n \<and> n < 16" | "16 \<le> n \<and> n < 24" | "24 \<le> n \<and> n < 32"
      by fastforce
    then show "bit ?w n = bit c n"
      by cases (auto simp add: bit_simps)
  qed
  then show ?thesis
    by (simp add: frame_of_counter_def)
qed

lemma read_int32_frame_of_counter_only: "read_int32 (frame_of_counter c) = Some c"
  using read_int32_frame_of_counter [of c "[]"] by simp

lemma read_int32_Some_iff: "(\<exists>c. read_int32 frame = Some c) \<longleftrightarrow> 4 \<le> length frame"
  by (induction frame rule: read_int32.induct) auto

subsection \<open>Signed 32-bit and 64-bit arithmetic, written out on the integers\<close>

lemma sint_word32_of_int: "sint (word_of_int q :: 32 word) = (q + 2 ^ 31) mod 2 ^ 32 - 2 ^ 31"
  by (simp add: int_word_sint)

lemma sint_diff32: "sint (a - b :: 32 word) = (sint a - sint b + 2 ^ 31) mod 2 ^ 32 - 2 ^ 31"
  by (simp add: sint_word_ariths signed_take_bit_eq_take_bit_shift take_bit_eq_mod)

lemma sint_add64_scast32:
  "sint (a + scast (d :: 32 word) :: 64 word) = (sint a + sint d + 2 ^ 63) mod 2 ^ 64 - 2 ^ 63"
  by (simp add: sint_word_ariths signed_take_bit_eq_take_bit_shift take_bit_eq_mod
      sint_up_scast is_up)

subsection \<open>One call of \<open>get_frame_timestamp\<close>\<close>

lemma get_frame_timestamp_started:
  assumes "started r" and "read_int32 frame = Some cur"
  shows "get_frame_timestamp r frame =
           Some (real_of_int (sint (word_of_int
                   (sint (total_acc r + scast (cur - last_timestamp r)) sdiv 100000) :: 32 word)),
                 r\<lparr>last_timestamp := cur,
                   total_acc := total_acc r + scast (cur - last_timestamp r)\<rparr>)"
  using assms by (simp add: get_frame_timestamp_def Let_def)

lemma get_frame_timestamp_first:
  assumes "\<not> started r" and "read_int32 frame = Some cur"
  shows "get_frame_timestamp r frame =
           Some (real_of_int (sint (word_of_int (sint (total_acc r) sdiv 100000) :: 32 word)),
                 r\<lparr>last_timestamp := cur, started := True\<rparr>)"
  using assms by (simp add: get_frame_timestamp_def Let_def)

lemma get_frame_timestamp_counter:
  "get_frame_timestamp r frame = Some (t, r') \<Longrightarrow> counter r' = counter r"
  by (auto simp add: get_frame_timestamp_def Let_def split: option.splits if_splits)

lemma get_frame_timestamps_append:
  "get_frame_timestamps r (fs @ gs) =
     (case get_frame_timestamps r fs of
        None \<Rightarrow> None
      | Some (ts, r') \<Rightarrow>
          (case get_frame_timestamps r' gs of
             None \<Rightarrow> None
           | Some (us, r'') \<Rightarrow> Some (ts @ us, r'')))"
  by (induction fs arbitrary: r) (auto split: option.splits)

subsection \<open>The test sequence of the spec\<close>

text \<open>
  The four frames used below carry the counters \<open>100\<close>, \<open>150\<close>, \<open>2^31 - 10\<close> and
  \<open>- 2^31 + 5\<close>.
\<close>

lemma rollover_frames_counters:
  "read_int32 [100, 0, 0, 0] = Some 100 \<and> read_int32 [150, 0, 0, 0] = Some 150
   \<and> read_int32 [0xF6, 0xFF, 0xFF, 0x7F] = Some (2 ^ 31 - 10)
   \<and> read_int32 [5, 0, 0, 0x80] = Some (- (2 ^ 31) + 5)
   \<and> sint (100 :: 32 word) = 100 \<and> sint (150 :: 32 word) = 150
   \<and> sint (2 ^ 31 - 10 :: 32 word) = 2 ^ 31 - 10
   \<and> sint (- (2 ^ 31) + 5 :: 32 word) = - (2 ^ 31) + 5"
  by simp

subsection \<open>A long stream: the accumulated total outgrows 32 bits\<close>

lemma fast_counter_frames_Suc:
  "fast_counter_frames (Suc n) =
     fast_counter_frames n @ [frame_of_counter (of_nat (Suc n) * 0x7FFFFFFF)]"
  by (simp add: fast_counter_frames_def)

text \<open>
  From a fresh reader, the frames \<open>0, \<dots>, n\<close> of a stream whose counter advances by
  \<open>2^31 - 1\<close> per frame leave the reader with \<open>total = n * (2^31 - 1)\<close>.
\<close>

lemma fast_counter_reachable:
  "\<exists>ts. get_frame_timestamps (rolling_timestamp_reader_init lt) (fast_counter_frames n)
     = Some (ts, \<lparr>started = True, total_acc = of_nat n * 0x7FFFFFFF,
                  last_timestamp = of_nat n * 0x7FFFFFFF, counter = 0\<rparr>)"
proof (induction n)
  case 0
  have "read_int32 (frame_of_counter 0) = Some 0"
    by (rule read_int32_frame_of_counter_only)
  then show ?case
    by (simp add: fast_counter_frames_def get_frame_timestamp_def Let_def
        rolling_timestamp_reader_init_def)
next
  case (Suc n)
  then obtain ts where ts:
    "get_frame_timestamps (rolling_timestamp_reader_init lt) (fast_counter_frames n)
       = Some (ts, \<lparr>started = True, total_acc = of_nat n * 0x7FFFFFFF,
                    last_timestamp = of_nat n * 0x7FFFFFFF, counter = 0\<rparr>)"
    by blast
  have delta: "(of_nat (Suc n) * 0x7FFFFFFF - of_nat n * 0x7FFFFFFF :: 32 word) = 0x7FFFFFFF"
    by (simp add: algebra_simps)
  have ext: "scast (0x7FFFFFFF :: 32 word) = (0x7FFFFFFF :: 64 word)"
    by simp
  have acc: "(of_nat n * 0x7FFFFFFF + 0x7FFFFFFF :: 64 word) = of_nat (Suc n) * 0x7FFFFFFF"
    by (simp add: algebra_simps)
  let ?r = "\<lparr>started = True, total_acc = of_nat n * 0x7FFFFFFF,
             last_timestamp = of_nat n * 0x7FFFFFFF, counter = 0\<rparr>"
  have "started ?r" by simp
  from get_frame_timestamp_started [OF this read_int32_frame_of_counter_only,
      of "of_nat (Suc n) * 0x7FFFFFFF"]
  have "\<exists>t. get_frame_timestamp ?r (frame_of_counter (of_nat (Suc n) * 0x7FFFFFFF))
      = Some (t, \<lparr>started = True, total_acc = of_nat (Suc n) * 0x7FFFFFFF,
                  last_timestamp = of_nat (Suc n) * 0x7FFFFFFF, counter = 0\<rparr>)"
    by (simp only: rolling_timestamp_reader.simps delta ext acc) simp
  then show ?case
    unfolding fast_counter_frames_Suc get_frame_timestamps_append ts
    by (auto simp del: of_nat_Suc)
qed

text \<open>
  After the first 100001 frames of that stream (100000 deltas) the reader is in the
  state at which the counterexample below starts.
\<close>

lemma fast_counter_reachable_100000:
  "\<exists>ts. get_frame_timestamps (rolling_timestamp_reader_init lt) (fast_counter_frames 100000)
     = Some (ts, \<lparr>started = True, total_acc = 214748364700000,
                  last_timestamp = 0xFFFE7960, counter = 0\<rparr>)"
proof -
  have "(of_nat 100000 * 0x7FFFFFFF :: 32 word) = 0xFFFE7960"
    by simp
  moreover have "(of_nat 100000 * 0x7FFFFFFF :: 64 word) = 214748364700000"
    by simp
  ultimately show ?thesis
    using fast_counter_reachable [of lt 100000] by (simp only:)
qed

text \<open>
  C1, as stated, fails: the returned timestamp is not always \<open>total / 100000\<close>.  In
  the reader state reached above, the next frame of the same stream (counter
  \<open>0x7FFE795F\<close>, again \<open>2^31 - 1\<close> ticks later) brings the total to
  \<open>214750512183647\<close>, whose quotient by \<open>100000\<close> is \<open>2147505121\<close>; the value
  returned is \<open>- 2147462175\<close>, the low 32 bits of the quotient read as signed.
\<close>

theorem get_frame_timestamp_not_quotient:
  "get_frame_timestamp
     \<lparr>started = True, total_acc = 214748364700000, last_timestamp = 0xFFFE7960, counter = 0\<rparr>
     [0x5F, 0x79, 0xFE, 0x7F]
   = Some (- 2147462175,
           \<lparr>started = True, total_acc = 214750512183647, last_timestamp = 0x7FFE795F,
            counter = 0\<rparr>)
   \<and> sint (214750512183647 :: 64 word) sdiv 100000 = 2147505121"
  by (simp add: get_frame_timestamp_def Let_def signed_divide_int_def)

text \<open>
  C1, amended.  On a call after the first (\<open>started\<close> holds) with the counter \<open>cur\<close>
  in the first four bytes of the frame: the delta is \<open>cur - last_timestamp\<close> with
  32-bit signed wrap-around, it is added to the 64-bit total, \<open>last_timestamp\<close>
  becomes \<open>cur\<close>, and the returned timestamp is \<open>total / 100000\<close> narrowed to 32 bits
  signed, hence equal to \<open>total / 100000\<close> whenever that quotient lies in
  \<open>[- 2^31, 2^31)\<close>.  For the frames carrying the counters
  \<open>100, 150, 2^31 - 10, - 2^31 + 5\<close> a fresh reader returns \<open>0, 0, 21474, 21474\<close>,
  a non-decreasing sequence, and the delta across the rollover is \<open>15\<close>.
\<close>

theorem get_frame_timestamp_accumulates:
  assumes "started r" and "read_int32 frame = Some cur"
  shows "(\<exists>t r'. get_frame_timestamp r frame = Some (t, r')
       \<and> total_acc r' = total_acc r + scast (cur - last_timestamp r)
       \<and> sint (cur - last_timestamp r)
           = (sint cur - sint (last_timestamp r) + 2 ^ 31) mod 2 ^ 32 - 2 ^ 31
       \<and> sint (total_acc r')
           = (sint (total_acc r) + sint (cur - last_timestamp r) + 2 ^ 63) mod 2 ^ 64 - 2 ^ 63
       \<and> last_timestamp r' = cur
       \<and> t = real_of_int ((sint (total_acc r') sdiv 100000 + 2 ^ 31) mod 2 ^ 32 - 2 ^ 31)
       \<and> (- (2 ^ 31) \<le> sint (total_acc r') sdiv 100000 \<and> sint (total_acc r') sdiv 100000 < 2 ^ 31
            \<longrightarrow> t = real_of_int (sint (total_acc r') sdiv 100000)))
     \<and> (\<exists>ts r'. get_frame_timestamps (rolling_timestamp_reader_init lt)
                   [[100, 0, 0, 0], [150, 0, 0, 0], [0xF6, 0xFF, 0xFF, 0x7F], [5, 0, 0, 0x80]]
                 = Some (ts, r')
          \<and> ts = [0, 0, 21474, 21474] \<and> sorted ts \<and> total_acc r' = 2147483553)
     \<and> sint ((- (2 ^ 31) + 5) - (2 ^ 31 - 10) :: 32 word) = 15"
proof -
  have step: "\<exists>t r'. get_frame_timestamp r frame = Some (t, r')
       \<and> total_acc r' = total_acc r + scast (cur - last_timestamp r)
       \<and> sint (cur - last_timestamp r)
           = (sint cur - sint (last_timestamp r) + 2 ^ 31) mod 2 ^ 32 - 2 ^ 31
       \<and> sint (total_acc r')
           = (sint (total_acc r) + sint (cur - last_timestamp r) + 2 ^ 63) mod 2 ^ 64 - 2 ^ 63
       \<and> last_timestamp r' = cur
       \<and> t = real_of_int ((sint (total_acc r') sdiv 100000 + 2 ^ 31) mod 2 ^ 32 - 2 ^ 31)
       \<and> (- (2 ^ 31) \<le> sint (total_acc r') sdiv 100000 \<and> sint (total_acc r') sdiv 100000 < 2 ^ 31
            \<longrightarrow> t = real_of_int (sint (total_acc r') sdiv 100000))"
    unfolding get_frame_timestamp_started [OF assms] sint_word32_of_int
    by (simp add: sint_diff32 sint_add64_scast32)
  have run: "get_frame_timestamps (rolling_timestamp_reader_init lt)
         [[100, 0, 0, 0], [150, 0, 0, 0], [0xF6, 0xFF, 0xFF, 0x7F], [5, 0, 0, 0x80]]
       = Some ([0, 0, 21474, 21474],
               \<lparr>started = True, total_acc = 2147483553, last_timestamp = 0x80000005,
                counter = 0\<rparr>)"
    by (simp add: get_frame_timestamp_def Let_def rolling_timestamp_reader_init_def
        signed_divide_int_def)
  have wrap: "sint ((- (2 ^ 31) + 5) - (2 ^ 31 - 10) :: 32 word) = 15"
    by simp
  from step run wrap show ?thesis
    by simp
qed

theorem get_frame_timestamp_accumulates_witness:
  "fst (the (get_frame_timestamp
       \<lparr>started = True, total_acc = 2147483538, last_timestamp = 0x7FFFFFF6, counter = 0\<rparr>
       [5, 0, 0, 0x80])) = 21474
   \<and> total_acc (snd (the (get_frame_timestamp
       \<lparr>started = True, total_acc = 2147483538, last_timestamp = 0x7FFFFFF6, counter = 0\<rparr>
       [5, 0, 0, 0x80]))) = 2147483553"
proof -
  let ?r = "\<lparr>started = True, total_acc = 2147483538, last_timestamp = 0x7FFFFFF6,
             counter = 0\<rparr>"
  have h1: "started ?r"
    by simp
  have h2: "read_int32 [5, 0, 0, 0x80] = Some 0x80000005"
    by simp
  from get_frame_timestamp_accumulates [OF h1 h2, of 0]
  obtain t r' where
    "get_frame_timestamp ?r [5, 0, 0, 0x80] = Some (t, r')"
    "total_acc r' = total_acc ?r + scast (0x80000005 - last_timestamp ?r :: 32 word)"
    "t = real_of_int ((sint (total_acc r') sdiv 100000 + 2 ^ 31) mod 2 ^ 32 - 2 ^ 31)"
    by blast
  then show ?thesis
    by (simp add: signed_divide_int_def)
qed

text \<open>
  C8.  Whenever the frame has the four bytes that are read, the value returned by
  \<open>get_frame_timestamp\<close> is an integer: the quotient of the 64-bit total by
  \<open>100000\<close>, truncated toward zero, then narrowed to 32 bits signed.  The first call
  on a fresh reader returns \<open>0\<close> whatever the frame holds (and whatever value the
  uninitialised \<open>last_timestamp\<close> had).
\<close>

theorem get_frame_timestamp_integral:
  assumes "4 \<le> length frame"
  shows "(\<exists>t r'. get_frame_timestamp r frame = Some (t, r') \<and> t \<in> \<int> \<and>
            t = real_of_int
                  ((sgn (sint (total_acc r')) * (\<bar>sint (total_acc r')\<bar> div 100000) + 2 ^ 31)
                      mod 2 ^ 32 - 2 ^ 31))
       \<and> (\<exists>r'. get_frame_timestamp (rolling_timestamp_reader_init lt) frame = Some (0, r'))"
proof -
  from assms obtain cur where cur: "read_int32 frame = Some cur"
    using read_int32_Some_iff [of frame] by blast
  have "\<exists>t r'. get_frame_timestamp r frame = Some (t, r') \<and> t \<in> \<int> \<and>
            t = real_of_int
                  ((sgn (sint (total_acc r')) * (\<bar>sint (total_acc r')\<bar> div 100000) + 2 ^ 31)
                      mod 2 ^ 32 - 2 ^ 31)"
  proof (cases "started r")
    case True
    show ?thesis
      unfolding get_frame_timestamp_started [OF True cur] sint_word32_of_int
      by (simp add: signed_divide_int_def)
  next
    case False
    show ?thesis
      unfolding get_frame_timestamp_first [OF False cur] sint_word32_of_int
      by (simp add: signed_divide_int_def)
  qed
  moreover have "\<exists>r'. get_frame_timestamp (rolling_timestamp_reader_init lt) frame = Some (0, r')"
    using cur by (simp add: get_frame_timestamp_def Let_def rolling_timestamp_reader_init_def)
  ultimately show ?thesis
    by blast
qed

theorem get_frame_timestamp_integral_witness:
  "fst (the (get_frame_timestamp
       \<lparr>started = True, total_acc = - 250000, last_timestamp = 60, counter = 0\<rparr>
       [10, 0, 0, 0, 7])) = - 2
   \<and> fst (the (get_frame_timestamp (rolling_timestamp_reader_init 12345) [10, 0, 0, 0, 7])) = 0"
proof -
  let ?r = "\<lparr>started = True, total_acc = - 250000, last_timestamp = 60, counter = 0\<rparr>"
  have h: "4 \<le> length [10, 0, 0, 0, 7 :: u8]"
    by simp
  from get_frame_timestamp_integral [OF h, of ?r 12345]
  obtain t r' r'' where
    "get_frame_timestamp ?r [10, 0, 0, 0, 7] = Some (t, r')"
    "get_frame_timestamp (rolling_timestamp_reader_init 12345) [10, 0, 0, 0, 7] = Some (0, r'')"
    by blast
  then show ?thesis
    by (simp add: get_frame_timestamp_def Let_def signed_divide_int_def)
qed

subsection \<open>\<open>validate_frame\<close>\<close>

lemma scan_nonzero_take:
  "n \<le> length bytes \<Longrightarrow> scan_nonzero n bytes = Some (\<exists>b \<in> set (take n bytes). b \<noteq> 0)"
  by (induction n bytes rule: scan_nonzero.induct) auto

text \<open>
  C4.  When the buffer holds the whole image region (its first
  \<open>get_image_size width height\<close> bytes), \<open>validate_frame\<close> returns false if every
  byte of the region is zero and true if at least one is not.
\<close>

theorem validate_frame_nonzero:
  assumes "get_image_size (pf mode) (width (profile mode)) (height (profile mode)) \<le> length frame"
  shows "((\<forall>b \<in> set (take (get_image_size (pf mode) (width (profile mode)) (height (profile mode)))
                        frame). b = 0)
            \<longrightarrow> validate_frame mode frame = Some False)
       \<and> ((\<exists>b \<in> set (take (get_image_size (pf mode) (width (profile mode)) (height (profile mode)))
                        frame). b \<noteq> 0)
            \<longrightarrow> validate_frame mode frame = Some True)"
  using scan_nonzero_take [OF assms] by (auto simp add: validate_frame_def)

theorem validate_frame_nonzero_witness:
  "validate_frame
     \<lparr>profile = \<lparr>width = 2, height = 2\<rparr>, pf = \<lparr>get_image_size = (\<lambda>w h. w * h)\<rparr>\<rparr>
     [0, 0, 0, 0, 9] = Some False
   \<and> validate_frame
     \<lparr>profile = \<lparr>width = 2, height = 2\<rparr>, pf = \<lparr>get_image_size = (\<lambda>w h. w * h)\<rparr>\<rparr>
     [0, 0, 1, 0] = Some True"
proof -
  let ?m = "\<lparr>profile = \<lparr>width = 2, height = 2\<rparr>, pf = \<lparr>get_image_size = (\<lambda>w h. w * h)\<rparr>\<rparr>"
  have h1: "get_image_size (pf ?m) (width (profile ?m)) (height (profile ?m))
              \<le> length [0, 0, 0, 0, 9 :: u8]"
    by simp
  have h2: "get_image_size (pf ?m) (width (profile ?m)) (height (profile ?m))
              \<le> length [0, 0, 1, 0 :: u8]"
    by simp
  from validate_frame_nonzero [OF h1] validate_frame_nonzero [OF h2] show ?thesis
    by simp
qed

text \<open>
  C10.  When the mapping reports an image size of zero bytes, \<open>validate_frame\<close>
  returns false for every buffer (the scan visits no byte), and the delivery step
  drops the frame without timestamping it: the reader, the frame archive and the
  frames delivered so far are left as they were.
\<close>

theorem validate_frame_zero_size:
  assumes "get_image_size (pf mode) (width (profile mode)) (height (profile mode)) = 0"
  shows "validate_frame mode frame = Some False
       \<and> deliver_frame e mode frame (r, archive, delivered) = Some (r, archive, delivered)"
  using assms by (simp add: validate_frame_def deliver_frame_def)

theorem validate_frame_zero_size_witness:
  "validate_frame
     \<lparr>profile = \<lparr>width = 0, height = 480\<rparr>, pf = \<lparr>get_image_size = (\<lambda>w h. w * h * 2)\<rparr>\<rparr>
     [1, 2, 3, 4, 5] = Some False
   \<and> deliver_frame
       ((endpoint_init :: (nat, unit) endpoint)\<lparr>callback := Some ()\<rparr>)
       \<lparr>profile = \<lparr>width = 0, height = 480\<rparr>, pf = \<lparr>get_image_size = (\<lambda>w h. w * h * 2)\<rparr>\<rparr>
       [1, 2, 3, 4, 5]
       (\<lparr>started = True, total_acc = 50, last_timestamp = 150, counter = 2\<rparr>,
        \<lparr>pool_free = 4, published = 0\<rparr>, [])
     = Some (\<lparr>started = True, total_acc = 50, last_timestamp = 150, counter = 2\<rparr>,
             \<lparr>pool_free = 4, published = 0\<rparr>, [])"
proof -
  let ?m = "\<lparr>profile = \<lparr>width = 0, height = 480\<rparr>, pf = \<lparr>get_image_size = (\<lambda>w h. w * h * 2)\<rparr>\<rparr>"
  have h: "get_image_size (pf ?m) (width (profile ?m)) (height (profile ?m)) = 0"
    by simp
  from validate_frame_zero_size [OF h] show ?thesis
    by blast
qed

text \<open>
  For contrast, a frame with a nonzero byte goes the whole way: it is timestamped,
  counted, wrapped and handed to the callback.
\<close>

lemma deliver_frame_valid_example:
  "deliver_frame
       ((endpoint_init :: (nat, unit) endpoint)\<lparr>callback := Some ()\<rparr>)
       \<lparr>profile = \<lparr>width = 2, height = 2\<rparr>, pf = \<lparr>get_image_size = (\<lambda>w h. w * h)\<rparr>\<rparr>
       [150, 0, 0, 0]
       (\<lparr>started = True, total_acc = 250000, last_timestamp = 100, counter = 2\<rparr>,
        \<lparr>pool_free = 4, published = 0\<rparr>, [])
     = Some (\<lparr>started = True, total_acc = 250050, last_timestamp = 150, counter = 3\<rparr>,
             \<lparr>pool_free = 3, published = 1\<rparr>,
             [\<lparr>frame_size = 4, additional_data = \<lparr>frame_timestamp = 2, frame_number = 3\<rparr>\<rparr>])"
proof -
  have v: "validate_frame
       \<lparr>profile = \<lparr>width = 2, height = 2\<rparr>, pf = \<lparr>get_image_size = (\<lambda>w h. w * h)\<rparr>\<rparr>
       [150, 0, 0, 0] = Some True"
    using scan_nonzero_take [of 4 "[150, 0, 0, 0]"] by (simp add: validate_frame_def)
  show ?thesis
    by (simp add: deliver_frame_def v get_frame_timestamp_def get_frame_counter_def Let_def
        alloc_frame_def invoke_callback_def endpoint_init_def signed_divide_int_def)
qed

subsection \<open>\<open>get_frame_counter\<close>\<close>

lemma reader_call_step_counter:
  "reader_call_step r c = Some (x, r') \<Longrightarrow>
     (case c of
        Call_get_frame_counter mode frame \<Rightarrow>
          x = Result_counter (counter r + 1) \<and> counter r' = counter r + 1
      | _ \<Rightarrow> counter_results [x] = [] \<and> counter r' = counter r)"
  by (cases c)
    (auto simp add: get_frame_counter_def dest: get_frame_timestamp_counter split: option.splits)

lemma counter_results_Cons_other:
  "counter_results [x] = [] \<Longrightarrow> counter_results (x # xs) = counter_results xs"
  by (cases x) auto

lemma reader_calls_counter:
  "reader_calls r cs = Some (xs, r') \<Longrightarrow>
     counter_results xs
       = map (\<lambda>k. counter r + of_nat (Suc k)) [0..<length (filter is_counter_call cs)]
   \<and> counter r' = counter r + of_nat (length (filter is_counter_call cs))"
proof (induction cs arbitrary: r xs)
  case Nil
  then show ?case by simp
next
  case (Cons c cs)
  from Cons.prems obtain x r1 ys where
    step: "reader_call_step r c = Some (x, r1)" and
    rest: "reader_calls r1 cs = Some (ys, r')" and
    xs: "xs = x # ys"
    by (auto split: option.splits)
  note ih = Cons.IH [OF rest]
  show ?case
  proof (cases "is_counter_call c")
    case True
    then obtain mode frame where c: "c = Call_get_frame_counter mode frame"
      by (cases c) auto
    with step have "x = Result_counter (counter r + 1)" "counter r1 = counter r + 1"
      using reader_call_step_counter [OF step] by auto
    with ih xs c show ?thesis
      by (simp add: upt_rec [of 0] map_Suc_upt [symmetric] add.assoc del: upt_Suc)
  next
    case False
    with reader_call_step_counter [OF step]
    have "counter_results [x] = []" "counter r1 = counter r"
      by (cases c; simp)+
    with ih xs False show ?thesis
      by (simp add: counter_results_Cons_other)
  qed
qed

lemma unat_of_nat64_upto:
  assumes "n < 2 ^ 64"
  shows "map (\<lambda>k. unat (of_nat (Suc k) :: 64 word)) [0..<n] = [1..<Suc n]"
proof -
  have "map (\<lambda>k. unat (of_nat (Suc k) :: 64 word)) [0..<n] = map Suc [0..<n]"
  proof (rule map_cong [OF refl])
    fix k assume "k \<in> set [0..<n]"
    with assms have "Suc k < 2 ^ 64" by simp
    then show "unat (of_nat (Suc k) :: 64 word) = Suc k"
      by (simp add: unat_of_nat take_bit_nat_eq_self del: of_nat_Suc)
  qed
  also have "\<dots> = [1..<Suc n]"
    by (simp add: map_Suc_upt)
  finally show ?thesis .
qed

text \<open>
  C5.  Take any sequence of calls on a fresh reader, with any frames and mappings and
  any interleaving of \<open>validate_frame\<close> and \<open>get_frame_timestamp\<close> calls, in which
  every call returns.  The values returned by the \<open>get_frame_counter\<close> calls are then
  \<open>1, 2, \<dots>, N\<close> in this order, \<open>N\<close> being the number of such calls (below \<open>2^64\<close>,
  the range of the returned \<^verbatim>\<open>unsigned long long\<close>).
\<close>

theorem get_frame_counter_sequence:
  assumes "reader_calls (rolling_timestamp_reader_init lt) calls = Some (results, r')"
    and "length (filter is_counter_call calls) < 2 ^ 64"
  shows "map unat (counter_results results) = [1..<Suc (length (filter is_counter_call calls))]"
proof -
  from reader_calls_counter [OF assms(1)]
  have "counter_results results =
          map (\<lambda>k. of_nat (Suc k)) [0..<length (filter is_counter_call calls)]"
    by (simp add: rolling_timestamp_reader_init_def)
  then have "map unat (counter_results results) =
          map (\<lambda>k. unat (of_nat (Suc k) :: 64 word)) [0..<length (filter is_counter_call calls)]"
    by (simp add: comp_def)
  with unat_of_nat64_upto [OF assms(2)] show ?thesis
    by simp
qed

theorem get_frame_counter_sequence_witness:
  "map unat (counter_results (fst (the (reader_calls (rolling_timestamp_reader_init 0)
     [Call_validate_frame \<lparr>profile = \<lparr>width = 2, height = 2\<rparr>, pf = \<lparr>get_image_size = (\<lambda>w h. w * h)\<rparr>\<rparr> [0, 0, 0, 0],
      Call_get_frame_counter \<lparr>profile = \<lparr>width = 2, height = 2\<rparr>, pf = \<lparr>get_image_size = (\<lambda>w h. w * h)\<rparr>\<rparr> [0, 0, 0, 0],
      Call_get_frame_timestamp \<lparr>profile = \<lparr>width = 2, height = 2\<rparr>, pf = \<lparr>get_image_size = (\<lambda>w h. w * h)\<rparr>\<rparr> [1, 0, 0, 0],
      Call_get_frame_counter \<lparr>profile = \<lparr>width = 2, height = 2\<rparr>, pf = \<lparr>get_image_size = (\<lambda>w h. w * h)\<rparr>\<rparr> [9, 9, 9, 9],
      Call_validate_frame \<lparr>profile = \<lparr>width = 2, height = 2\<rparr>, pf = \<lparr>get_image_size = (\<lambda>w h. w * h)\<rparr>\<rparr> [0, 0, 5, 0],
      Call_get_frame_counter \<lparr>profile = \<lparr>width = 2, height = 2\<rparr>, pf = \<lparr>get_image_size = (\<lambda>w h. w * h)\<rparr>\<rparr> []])))) = [1, 2, 3]"
proof -
  let ?m = "\<lparr>profile = \<lparr>width = 2, height = 2\<rparr>, pf = \<lparr>get_image_size = (\<lambda>w h. w * h)\<rparr>\<rparr>"
  let ?calls = "[Call_validate_frame ?m [0, 0, 0, 0], Call_get_frame_counter ?m [0, 0, 0, 0],
      Call_get_frame_timestamp ?m [1, 0, 0, 0], Call_get_frame_counter ?m [9, 9, 9, 9],
      Call_validate_frame ?m [0, 0, 5, 0], Call_get_frame_counter ?m []]"
  have h1: "reader_calls (rolling_timestamp_reader_init 0) ?calls
      = Some ([Result_valid False, Result_counter 1, Result_timestamp 0, Result_counter 2,
               Result_valid True, Result_counter 3],
              \<lparr>started = True, total_acc = 0, last_timestamp = 1, counter = 3\<rparr>)"
  proof -
    have v1: "validate_frame ?m [0, 0, 0, 0] = Some False"
      using scan_nonzero_take [of 4 "[0, 0, 0, 0]"] by (simp add: validate_frame_def)
    have v2: "validate_frame ?m [0, 0, 5, 0] = Some True"
      using scan_nonzero_take [of 4 "[0, 0, 5, 0]"] by (simp add: validate_frame_def)
    show ?thesis
      by (simp add: v1 v2 get_frame_timestamp_def get_frame_counter_def Let_def
          rolling_timestamp_reader_init_def)
  qed
  have h2: "length (filter is_counter_call ?calls) < 2 ^ 64"
    by simp
  from get_frame_counter_sequence [OF h1 h2] show ?thesis
    unfolding h1 by simp
qed


section \<open>Properties of the endpoint base class\<close>

subsection \<open>The cached stream profiles\<close>

lemma get_stream_profiles_first:
  assumes "stream_profiles e = None"
  shows "get_stream_profiles init e d =
           (fst (init d), e\<lparr>stream_profiles := Some (fst (init d))\<rparr>, snd (init d))"
  using assms by (simp add: get_stream_profiles_def lazy_deref_def split: prod.splits)

lemma get_stream_profiles_cached:
  assumes "stream_profiles e = Some v"
  shows "get_stream_profiles init e d = (v, e, d)"
  using assms by (simp add: get_stream_profiles_def lazy_deref_def)

lemma get_stream_profiles_calls_cached:
  assumes "stream_profiles e = Some v"
  shows "get_stream_profiles_calls init e d changes =
           (replicate (length changes) v, e, fold (\<lambda>change. change) changes d)"
  using assms
  by (induction changes arbitrary: d)
    (simp_all add: get_stream_profiles_cached replicate_app_Cons_same)

lemma fold_apfst:
  "fold (\<lambda>change. change) (map apfst changes) (d, n) = (fold (\<lambda>change. change) changes d, n)"
  by (induction changes arbitrary: d) simp_all

text \<open>
  C6.  On an endpoint as its constructor leaves it, take one or more calls of
  \<open>get_stream_profiles\<close>, the device changing in any way before each call.  Every
  call returns the list that \<open>init_stream_profiles\<close> produced at the first call, the
  endpoint keeps that list, and \<open>init_stream_profiles\<close> has been invoked exactly once
  (the count in the second component of the state is 1).
\<close>

theorem get_stream_profiles_enumerates_once:
  "get_stream_profiles_calls (counting init) (endpoint_init :: ('p, 'cb) endpoint) (d, 0)
       (map apfst (change # changes))
     = (replicate (Suc (length changes)) (fst (init (change d))),
        endpoint_init\<lparr>stream_profiles := Some (fst (init (change d)))\<rparr>,
        (fold (\<lambda>change. change) changes (snd (init (change d))), 1))"
proof -
  have first: "get_stream_profiles (counting init) (endpoint_init :: ('p, 'cb) endpoint) (change d, 0)
      = (fst (init (change d)), endpoint_init\<lparr>stream_profiles := Some (fst (init (change d)))\<rparr>,
         (snd (init (change d)), 1))"
    by (simp add: get_stream_profiles_first endpoint_init_def counting_def split: prod.splits)
  show ?thesis
    by (simp add: first get_stream_profiles_calls_cached fold_apfst)
qed

theorem get_stream_profiles_enumerates_once_witness:
  "get_stream_profiles_calls (counting (\<lambda>d :: nat. ([d, d + 1], d)))
     (endpoint_init :: (nat, unit) endpoint) (5, 0)
     (map apfst [(\<lambda>d. d + 10), (\<lambda>d. d * 2), (\<lambda>d. 0)])
   = ([[15, 16], [15, 16], [15, 16]],
      \<lparr>is_streaming = False, is_opened = False, callback = None,
       max_publish_list_size = 16, stream_profiles = Some [15, 16]\<rparr>,
      (0, 1))"
  using get_stream_profiles_enumerates_once
    [of "\<lambda>d :: nat. ([d, d + 1], d)" 5 "\<lambda>d. d + 10" "[(\<lambda>d. d * 2), (\<lambda>d. 0)]",
      where ?'cb = unit]
  by (simp add: endpoint_init_def numeral_3_eq_3)

subsection \<open>Frame allocation under backpressure\<close>

lemma alloc_frame_never_fails: "alloc_frame e archive sz data \<noteq> Inl err"
  by (simp add: alloc_frame_def)

lemma alloc_frames_fresh:
  assumes "published archive + n \<le> unat (max_publish_list_size e)" and "n \<le> pool_free archive"
  shows "alloc_frames e archive sz n data =
           Inr (replicate n (Some \<lparr>frame_size = sz, additional_data = data\<rparr>),
                archive\<lparr>pool_free := pool_free archive - n, published := published archive + n\<rparr>)"
  using assms
proof (induction n arbitrary: archive)
  case 0
  then show ?case by simp
next
  case (Suc n)
  let ?a = "archive\<lparr>pool_free := pool_free archive - 1, published := Suc (published archive)\<rparr>"
  from Suc.prems have one: "alloc_frame e archive sz data
      = Inr (Some \<lparr>frame_size = sz, additional_data = data\<rparr>, ?a)"
    by (simp add: alloc_frame_def)
  from Suc.prems have "published ?a + n \<le> unat (max_publish_list_size e)" "n \<le> pool_free ?a"
    by simp_all
  from Suc.IH [OF this] one show ?case
    by simp
qed

text \<open>
  C7.  The constructor sets \<open>max_publish_list_size\<close> to 16.  When the pool has no
  free buffer, or as many frames are published as \<open>max_publish_list_size\<close> allows,
  \<open>alloc_frame\<close> returns normally with an empty result and leaves the archive as it
  was.  On a freshly constructed endpoint with room in the pool, sixteen allocations
  in a row succeed and the seventeenth returns the empty result.
\<close>

theorem alloc_frame_backpressure:
  "max_publish_list_size (endpoint_init :: ('p, 'cb) endpoint) = 16
   \<and> (pool_free archive = 0 \<or> unat (max_publish_list_size e) \<le> published archive
        \<longrightarrow> alloc_frame e archive sz data = Inr (None, archive))
   \<and> (16 \<le> pool_free archive0 \<and> published archive0 = 0 \<longrightarrow>
        (\<exists>archive1. alloc_frames (endpoint_init :: ('p, 'cb) endpoint) archive0 sz 16 data
                      = Inr (replicate 16 (Some \<lparr>frame_size = sz, additional_data = data\<rparr>),
                             archive1)
            \<and> published archive1 = 16
            \<and> alloc_frame (endpoint_init :: ('p, 'cb) endpoint) archive1 sz data
                = Inr (None, archive1)))"
proof -
  have m: "max_publish_list_size (endpoint_init :: ('p, 'cb) endpoint) = 16"
    by (simp add: endpoint_init_def)
  have full: "alloc_frame e archive sz data = Inr (None, archive)"
    if "pool_free archive = 0 \<or> unat (max_publish_list_size e) \<le> published archive"
    using that by (auto simp add: alloc_frame_def)
  have run: "\<exists>archive1. alloc_frames (endpoint_init :: ('p, 'cb) endpoint) archive0 sz 16 data
                      = Inr (replicate 16 (Some \<lparr>frame_size = sz, additional_data = data\<rparr>),
                             archive1)
            \<and> published archive1 = 16
            \<and> alloc_frame (endpoint_init :: ('p, 'cb) endpoint) archive1 sz data
                = Inr (None, archive1)"
    if "16 \<le> pool_free archive0 \<and> published archive0 = 0"
  proof -
    from that m
    have "published archive0 + 16
            \<le> unat (max_publish_list_size (endpoint_init :: ('p, 'cb) endpoint))"
      and "16 \<le> pool_free archive0"
      by simp_all
    from alloc_frames_fresh [OF this, of sz data] that m show ?thesis
      by (simp add: alloc_frame_def)
  qed
  from m full run show ?thesis
    by blast
qed

theorem alloc_frame_backpressure_witness:
  "alloc_frame (endpoint_init :: (nat, unit) endpoint) \<lparr>pool_free = 0, published = 3\<rparr> 640 (7 :: nat)
     = Inr (None, \<lparr>pool_free = 0, published = 3\<rparr>)
   \<and> alloc_frame (endpoint_init :: (nat, unit) endpoint) \<lparr>pool_free = 4, published = 16\<rparr> 640 (7 :: nat)
     = Inr (None, \<lparr>pool_free = 4, published = 16\<rparr>)
   \<and> (\<exists>archive1. alloc_frames (endpoint_init :: (nat, unit) endpoint)
                    \<lparr>pool_free = 20, published = 0\<rparr> 640 16 (7 :: nat)
                  = Inr (replicate 16 (Some \<lparr>frame_size = 640, additional_data = 7\<rparr>), archive1)
        \<and> published archive1 = 16
        \<and> alloc_frame (endpoint_init :: (nat, unit) endpoint) archive1 640 (7 :: nat)
            = Inr (None, archive1))"
proof -
  let ?e = "endpoint_init :: (nat, unit) endpoint"
  have m: "max_publish_list_size ?e = 16"
    by (simp add: endpoint_init_def)
  have h1: "pool_free \<lparr>pool_free = 0, published = 3\<rparr> = 0
           \<or> unat (max_publish_list_size ?e) \<le> published \<lparr>pool_free = 0, published = 3\<rparr>"
    by simp
  have h2: "pool_free \<lparr>pool_free = 4, published = 16\<rparr> = 0
           \<or> unat (max_publish_list_size ?e) \<le> published \<lparr>pool_free = 4, published = 16\<rparr>"
    by (simp add: m)
  have h3: "16 \<le> pool_free \<lparr>pool_free = 20, published = 0\<rparr>
           \<and> published \<lparr>pool_free = 20, published = 0\<rparr> = 0"
    by simp
  from alloc_frame_backpressure
    [of "\<lparr>pool_free = 0, published = 3\<rparr>" ?e 640 "7 :: nat" "\<lparr>pool_free = 20, published = 0\<rparr>",
      where ?'p = nat and ?'cb = unit]
    alloc_frame_backpressure
    [of "\<lparr>pool_free = 4, published = 16\<rparr>" ?e 640 "7 :: nat" "\<lparr>pool_free = 20, published = 0\<rparr>",
      where ?'p = nat and ?'cb = unit]
    h1 h2 h3
  show ?thesis
    by blast
qed

section \<open>Properties of the HID endpoint\<close>

lemma foldl_push_back:
  "foldl (\<lambda>ep elem. ep\<lparr>hid_sensors := hid_sensors ep @ [elem]\<rparr>) ep0 elems
     = ep0\<lparr>hid_sensors := hid_sensors ep0 @ elems\<rparr>"
  by (induction elems arbitrary: ep0) simp_all

text \<open>
  C9.  Constructing a HID endpoint sends the device \<open>open\<close>, \<open>get_sensors\<close> and
  \<open>close\<close>, in this order, before it returns, and the endpoint stores a copy of the
  sensor list the device reported at that moment.
\<close>

theorem hid_endpoint_init_snapshot:
  "hid_endpoint_init d =
     (\<lparr>configured_sensor_iio = [], hid_sensors = device_sensors d\<rparr>,
      d\<lparr>hid_calls := hid_calls d @ [Hid_open, Hid_get_sensors, Hid_close]\<rparr>)"
  by (simp add: hid_endpoint_init_def hid_device_open_def hid_device_get_sensors_def
      hid_device_close_def foldl_push_back)

theorem hid_endpoint_init_snapshot_witness:
  "hid_endpoint_init \<lparr>device_sensors = [''gyro_3d'', ''accel_3d''], hid_calls = []\<rparr>
     = (\<lparr>configured_sensor_iio = [], hid_sensors = [''gyro_3d'', ''accel_3d'']\<rparr>,
        \<lparr>device_sensors = [''gyro_3d'', ''accel_3d''],
         hid_calls = [Hid_open, Hid_get_sensors, Hid_close]\<rparr>)"
  using hid_endpoint_init_snapshot
    [of "\<lparr>device_sensors = [''gyro_3d'', ''accel_3d''], hid_calls = []\<rparr>"]
  by simp

section \<open>Properties of the power gate\<close>

lemma power_init_alive:
  assumes "owner w = Some e" and "\<not> power_on_fails (device w)"
  shows "power_init w =
           Inr \<lparr>owner = Some (e\<lparr>user_count := user_count e + 1\<rparr>),
                device = (device w)\<lparr>power_log := power_log (device w)
                            @ (if user_count e = 0 then [Power_on] else [])\<rparr>\<rparr>"
  using assms by (simp add: power_init_def acquire_power_def)

lemma power_init_failure:
  assumes "owner w = Some e" and "power_on_fails (device w)" and "user_count e = 0"
  shows "power_init w = Inl Power_acquisition_failure"
  using assms by (simp add: power_init_def acquire_power_def)

lemma power_destroy_alive:
  assumes "owner w = Some e"
  shows "power_destroy w =
           \<lparr>owner = Some (e\<lparr>user_count := user_count e - 1\<rparr>),
            device = (device w)\<lparr>power_log := power_log (device w)
                        @ (if user_count e = 1 then [Power_off] else [])\<rparr>\<rparr>"
  using assms by (simp add: power_destroy_def release_power_def Let_def)

text \<open>
  C2.  On a live endpoint whose device powers on without failure, any sequence of
  token constructions and destructions, carried out one at a time, completes; the
  count ends where the increments and decrements take it, and the power commands the
  device received are exactly those of \<open>power_transitions\<close>: one power-on for each
  construction that finds the count at 0, one power-off for each destruction that
  finds it at 1, in order, and no other.
\<close>

theorem power_gate_transitions:
  assumes "owner w = Some e" and "\<not> power_on_fails (device w)"
  shows "power_ops w ops =
           Inr \<lparr>owner = Some (e\<lparr>user_count := count_after (user_count e) ops\<rparr>),
                device = (device w)\<lparr>power_log := power_log (device w)
                            @ power_transitions (user_count e) ops\<rparr>\<rparr>"
  using assms
proof (induction ops arbitrary: w e)
  case Nil
  then show ?case by simp
next
  case (Cons op ops)
  show ?case
  proof (cases op)
    case Construct_power
    let ?w' = "\<lparr>owner = Some (e\<lparr>user_count := user_count e + 1\<rparr>),
                device = (device w)\<lparr>power_log := power_log (device w)
                            @ (if user_count e = 0 then [Power_on] else [])\<rparr>\<rparr>"
    have "power_ops w (op # ops) = power_ops ?w' ops"
      using power_init_alive [OF Cons.prems] Construct_power by simp
    also have "\<dots> = Inr \<lparr>owner = Some (e\<lparr>user_count := count_after (user_count e + 1) ops\<rparr>),
                device = (device ?w')\<lparr>power_log := power_log (device ?w')
                            @ power_transitions (user_count e + 1) ops\<rparr>\<rparr>"
      using Cons.IH [of ?w' "e\<lparr>user_count := user_count e + 1\<rparr>"] Cons.prems(2) by simp
    finally show ?thesis
      using Construct_power by simp
  next
    case Destroy_power
    let ?w' = "\<lparr>owner = Some (e\<lparr>user_count := user_count e - 1\<rparr>),
                device = (device w)\<lparr>power_log := power_log (device w)
                            @ (if user_count e = 1 then [Power_off] else [])\<rparr>\<rparr>"
    have "power_ops w (op # ops) = power_ops ?w' ops"
      using power_destroy_alive [OF Cons.prems(1)] Destroy_power by simp
    also have "\<dots> = Inr \<lparr>owner = Some (e\<lparr>user_count := count_after (user_count e - 1) ops\<rparr>),
                device = (device ?w')\<lparr>power_log := power_log (device ?w')
                            @ power_transitions (user_count e - 1) ops\<rparr>\<rparr>"
      using Cons.IH [of ?w' "e\<lparr>user_count := user_count e - 1\<rparr>"] Cons.prems(2) by simp
    finally show ?thesis
      using Destroy_power by simp
  qed
qed

theorem power_gate_transitions_witness:
  "power_ops (uvc_endpoint_init \<lparr>power_log = [], power_on_fails = False\<rparr>)
     [Construct_power, Construct_power, Destroy_power, Destroy_power, Construct_power, Destroy_power]
   = Inr \<lparr>owner = Some \<lparr>user_count = 0\<rparr>,
          device = \<lparr>power_log = [Power_on, Power_off, Power_on, Power_off],
                    power_on_fails = False\<rparr>\<rparr>"
proof -
  let ?w = "uvc_endpoint_init \<lparr>power_log = [], power_on_fails = False\<rparr>"
  have h1: "owner ?w = Some \<lparr>user_count = 0\<rparr>"
    by (simp add: uvc_endpoint_init_def)
  have h2: "\<not> power_on_fails (device ?w)"
    by (simp add: uvc_endpoint_init_def)
  have ev: "power_transitions 0
      [Construct_power, Construct_power, Destroy_power, Destroy_power, Construct_power,
       Destroy_power] = [Power_on, Power_off, Power_on, Power_off]"
    by simp
  have cnt: "count_after 0
      [Construct_power, Construct_power, Destroy_power, Destroy_power, Construct_power,
       Destroy_power] = 0"
    by simp
  from power_gate_transitions [OF h1 h2,
      of "[Construct_power, Construct_power, Destroy_power, Destroy_power, Construct_power,
           Destroy_power]"]
  show ?thesis
    unfolding ev cnt by (simp add: uvc_endpoint_init_def)
qed

text \<open>
  C3, as stated, fails: with the owning endpoint gone and the device still powered
  on, destroying the token leaves the device's power log as it was; no power-off is
  issued.
\<close>

theorem power_destroy_expired_no_power_off:
  "power_log (device (power_destroy
      \<lparr>owner = None, device = \<lparr>power_log = [Power_on], power_on_fails = False\<rparr>\<rparr>))
     = [Power_on]"
  by (simp add: power_destroy_def)

text \<open>
  C3, amended.  If the owning endpoint has been destroyed while a token is still
  held, destroying the token changes nothing: \<open>release_power\<close> is not called, the
  device receives no command.
\<close>

theorem power_destroy_expired:
  assumes "owner w = None"
  shows "power_destroy w = w"
  using assms by (simp add: power_destroy_def)

theorem power_destroy_expired_witness:
  "power_destroy \<lparr>owner = None, device = \<lparr>power_log = [Power_on], power_on_fails = False\<rparr>\<rparr>
     = \<lparr>owner = None, device = \<lparr>power_log = [Power_on], power_on_fails = False\<rparr>\<rparr>"
proof -
  have h: "owner \<lparr>owner = None, device = \<lparr>power_log = [Power_on], power_on_fails = False\<rparr>\<rparr> = None"
    by simp
  from power_destroy_expired [OF h] show ?thesis .
qed

end
